theory Spec2Isabelle
  imports Complex_Main "HOL-Library.Word" "HOL-Library.Sublist"
begin

section \<open>The VLisp front end: tokens, the tokenizer, the list builder\<close>

text \<open>
  The development embeds \<^verbatim>\<open>examples/VLisp/VLisp.cpp\<close>: the function \<^verbatim>\<open>search\<close>, the
  lambda \<^verbatim>\<open>appendText\<close>, \<^verbatim>\<open>tokenize\<close> and \<^verbatim>\<open>getLists\<close>.

  Conventions of the embedding.
  \<^item> The text buffer is a \<open>char list\<close>: the contents of the \<^verbatim>\<open>std::string\<close> that
    \<^verbatim>\<open>parse\<close> reads from the stream. \<^verbatim>\<open>c_str()\<close> puts one NUL behind it, so reading
    the buffer at its length gives NUL (\<open>peek\<close>). The contents may hold NUL bytes of
    their own.
  \<^item> A \<^verbatim>\<open>char const *\<close> into the buffer is its offset, a \<open>nat\<close>.
  \<^item> The source checks its input with \<^verbatim>\<open>assert\<close>. The embedding is that of a build with
    assertions enabled: a failed \<^verbatim>\<open>assert\<close> ends the run, which is the result
    \<open>Inl\<close> of an error that carries the message of the assertion. The assertions of
    \<^verbatim>\<open>tokenize\<close> give a \<open>LexError\<close>, the one of \<^verbatim>\<open>getLists\<close> a \<open>ParseError\<close>.
\<close>

subsection \<open>Tokens\<close>

datatype TokenType = NAME | STRING | LP | RP | I32 | F32

text \<open>
  A \<^verbatim>\<open>float\<close>: a sign and a magnitude (so that \<open>-0.0\<close> is a value), the two
  infinities, and NaN. The magnitude of a finite value is the rational it denotes.
\<close>

datatype float32 = Finite bool rat | Infinite bool | NaN

record Token =
  type :: TokenType
  pStart :: nat
  pEnd :: nat
  f32 :: float32
  i32 :: "32 word"

text \<open>
  The braced initialisers of the source name the leading members only; the members left
  out are value-initialised, that is \<open>0.0f\<close> and \<open>0\<close>.
\<close>

definition mkToken :: "TokenType \<Rightarrow> nat \<Rightarrow> nat \<Rightarrow> Token" where
  "mkToken ty s e = \<lparr>type = ty, pStart = s, pEnd = e, f32 = Finite False 0, i32 = 0\<rparr>"

definition mkTokenF32 :: "nat \<Rightarrow> nat \<Rightarrow> float32 \<Rightarrow> Token" where
  "mkTokenF32 s e f = \<lparr>type = F32, pStart = s, pEnd = e, f32 = f, i32 = 0\<rparr>"

definition mkTokenI32 :: "nat \<Rightarrow> nat \<Rightarrow> 32 word \<Rightarrow> Token" where
  "mkTokenI32 s e i = \<lparr>type = I32, pStart = s, pEnd = e, f32 = Finite False 0, i32 = i\<rparr>"

datatype error = LexError string | ParseError string

subsection \<open>Reading the buffer\<close>

definition NUL :: char where
  "NUL = CHR 0x00"

definition peek :: "char list \<Rightarrow> nat \<Rightarrow> char" where
  "peek buf i = (if i < length buf then buf ! i else NUL)"

text \<open>The C string that starts at offset \<open>p\<close>: the characters up to the first NUL.\<close>

definition c_str_at :: "char list \<Rightarrow> nat \<Rightarrow> char list" where
  "c_str_at buf p = takeWhile (\<lambda>c. c \<noteq> NUL) (drop p buf)"

text \<open>The characters of a span, as \<^verbatim>\<open>std::string(pStart, pEnd)\<close> copies them.\<close>

definition span_text :: "char list \<Rightarrow> nat \<Rightarrow> nat \<Rightarrow> char list" where
  "span_text buf s e = take (e - s) (drop s buf)"

subsection \<open>The C library: character classes, \<^verbatim>\<open>strtol\<close>, \<^verbatim>\<open>strtof\<close>\<close>

text \<open>
  These are not code of the repository: they are written after the C standard
  (7.4.1 and 7.20.1 of C99), in the "C" locale.
\<close>

definition isspace :: "char \<Rightarrow> bool" where
  "isspace c = (c \<in> set [CHR 0x20, CHR 0x09, CHR 0x0A, CHR 0x0B, CHR 0x0C, CHR 0x0D])"

definition isdigit :: "char \<Rightarrow> bool" where
  "isdigit c = ((48::nat) \<le> of_char c \<and> of_char c \<le> (57::nat))"

definition isxdigit :: "char \<Rightarrow> bool" where
  "isxdigit c = (isdigit c
     \<or> ((65::nat) \<le> of_char c \<and> of_char c \<le> (70::nat))
     \<or> ((97::nat) \<le> of_char c \<and> of_char c \<le> (102::nat)))"

definition isalpha :: "char \<Rightarrow> bool" where
  "isalpha c = (((65::nat) \<le> of_char c \<and> of_char c \<le> (90::nat))
     \<or> ((97::nat) \<le> of_char c \<and> of_char c \<le> (122::nat)))"

definition tolower :: "char \<Rightarrow> char" where
  "tolower c = (if (65::nat) \<le> of_char c \<and> of_char c \<le> (90::nat)
                then char_of (of_char c + (32::nat)) else c)"

definition digit_val :: "char \<Rightarrow> int" where
  "digit_val c = (if isdigit c then of_char c - 48
                  else if (97::nat) \<le> of_char c then of_char c - 87
                  else of_char c - 55)"

text \<open>The number a string of digits denotes in base \<open>b\<close>, most significant digit first.\<close>

definition digits_val :: "int \<Rightarrow> char list \<Rightarrow> int" where
  "digits_val b ds = foldl (\<lambda>acc c. acc * b + digit_val c) 0 ds"

text \<open>An optional sign: whether it is a minus, and how many characters it takes.\<close>

definition opt_sign :: "char list \<Rightarrow> bool \<times> nat" where
  "opt_sign s = (case s of
       [] \<Rightarrow> (False, 0)
     | c # _ \<Rightarrow> if c = CHR ''-'' then (True, 1)
                else if c = CHR ''+'' then (False, 1) else (False, 0))"

definition LONG_MAX :: int where "LONG_MAX = 2 ^ 63 - 1"
definition LONG_MIN :: int where "LONG_MIN = - (2 ^ 63)"

text \<open>
  \<^verbatim>\<open>strtol(s, &end, 10)\<close> on the C string \<open>s\<close>: the value, a \<^verbatim>\<open>long\<close> (of 64 bits,
  as on the LP64 platforms), and the number of characters consumed,
  \<^verbatim>\<open>end - s\<close>. White space is skipped, a sign is optional, and at least one digit
  must follow; otherwise no conversion is performed: the value is 0 and
  \<^verbatim>\<open>end\<close> is \<^verbatim>\<open>s\<close>. A value out of range is \<^verbatim>\<open>LONG_MAX\<close> or \<^verbatim>\<open>LONG_MIN\<close>.
\<close>

definition strtol :: "char list \<Rightarrow> int \<times> nat" where
  "strtol s =
     (let ws = takeWhile isspace s;
          s1 = dropWhile isspace s;
          (neg, sg) = opt_sign s1;
          ds = takeWhile isdigit (drop sg s1);
          v = (if neg then - digits_val 10 ds else digits_val 10 ds)
      in if ds = [] then (0, 0)
         else (max LONG_MIN (min LONG_MAX v), length ws + sg + length ds))"

text \<open>Whether \<open>s\<close> starts with the lower-case word \<open>w\<close>, ignoring the case of \<open>s\<close>.\<close>

definition starts_with_ci :: "char list \<Rightarrow> char list \<Rightarrow> bool" where
  "starts_with_ci w s = (length w \<le> length s \<and> map tolower (take (length w) s) = w)"

text \<open>
  Rounding a positive rational to the nearest binary32 value, ties to even: 24 bits of
  precision, exponents from \<open>-126\<close> to \<open>127\<close>, subnormal numbers below. \<open>None\<close>
  is the overflow, which \<^verbatim>\<open>strtof\<close> returns as an infinity.
\<close>

definition pow2 :: "int \<Rightarrow> rat" where
  "pow2 e = (if 0 \<le> e then 2 ^ nat e else 1 / 2 ^ nat (- e))"

text \<open>The number of binary digits of a positive integer.\<close>

function bitlen :: "int \<Rightarrow> int" where
  "bitlen n = (if n \<le> 0 then 0 else 1 + bitlen (n div 2))"
  by pat_completeness auto
termination
  by (relation "measure nat") auto

declare bitlen.simps [simp del]

definition ilog2 :: "rat \<Rightarrow> int" where
  "ilog2 a = (let (p, q) = quotient_of a;
                  d = bitlen p - bitlen q
              in if pow2 d \<le> a then d else d - 1)"

definition round_half_even :: "rat \<Rightarrow> int" where
  "round_half_even m =
     (let f = \<lfloor>m\<rfloor>; r = m - of_int f
      in if r < 1 / 2 then f else if 1 / 2 < r then f + 1
         else if even f then f else f + 1)"

definition round_binary32 :: "rat \<Rightarrow> rat option" where
  "round_binary32 a =
     (if a = 0 then Some 0
      else let e = max (ilog2 a) (- 126);
               ulp = pow2 (e - 23);
               v = of_int (round_half_even (a / ulp)) * ulp
           in if pow2 128 \<le> v then None else Some v)"

definition mkFloat :: "bool \<Rightarrow> rat \<Rightarrow> float32" where
  "mkFloat neg a = (case round_binary32 a of None \<Rightarrow> Infinite neg | Some v \<Rightarrow> Finite neg v)"

text \<open>
  An optional exponent part, after the mantissa: the letter \<open>l\<close> (given in lower
  case), an optional sign, and at least one decimal digit. The result is the exponent and
  the number of characters it takes; without a digit nothing is taken.
\<close>

definition opt_exponent :: "char \<Rightarrow> char list \<Rightarrow> int \<times> nat" where
  "opt_exponent l s = (case s of
       [] \<Rightarrow> (0, 0)
     | c # r \<Rightarrow>
         if tolower c = l then
           (let (neg, sg) = opt_sign r;
                ds = takeWhile isdigit (drop sg r)
            in if ds = [] then (0, 0)
               else (if neg then - digits_val 10 ds else digits_val 10 ds,
                     1 + sg + length ds))
         else (0, 0))"

text \<open>
  A mantissa in base \<open>b\<close>: digits with at most one decimal point among them, and at
  least one digit. The result is the number read with the point left out, the number of
  digits behind the point, and the number of characters taken; \<open>None\<close> without a digit.
\<close>

definition mantissa :: "(char \<Rightarrow> bool) \<Rightarrow> int \<Rightarrow> char list \<Rightarrow> (int \<times> nat \<times> nat) option" where
  "mantissa isd b s =
     (let ip = takeWhile isd s;
          r = drop (length ip) s;
          (fp, dot) = (case r of
              [] \<Rightarrow> ([], 0)
            | c # r' \<Rightarrow> if c = CHR ''.'' then (takeWhile isd r', 1) else ([], 0))
      in if ip = [] \<and> fp = [] then None
         else Some (digits_val b (ip @ fp), length fp, length ip + dot + length fp))"

definition scale :: "int \<Rightarrow> int \<Rightarrow> rat" where
  "scale b e = (if 0 \<le> e then of_int b ^ nat e else 1 / of_int b ^ nat (- e))"

text \<open>A decimal floating constant: mantissa, then an optional exponent \<open>e\<close>.\<close>

definition dec_float :: "char list \<Rightarrow> (rat \<times> nat) option" where
  "dec_float s = (case mantissa isdigit 10 s of
       None \<Rightarrow> None
     | Some (m, fl, n) \<Rightarrow>
         (let (ex, en) = opt_exponent (CHR ''e'') (drop n s)
          in Some (of_int m * scale 10 (ex - int fl), n + en)))"

text \<open>
  A hexadecimal floating constant: \<open>0x\<close>, a hexadecimal mantissa, then an optional
  binary exponent \<open>p\<close>. Without a hexadecimal digit behind \<open>0x\<close> it is not one.
\<close>

definition hex_float :: "char list \<Rightarrow> (rat \<times> nat) option" where
  "hex_float s =
     (if starts_with_ci ''0x'' s then
        (case mantissa isxdigit 16 (drop 2 s) of
           None \<Rightarrow> None
         | Some (m, fl, n) \<Rightarrow>
             (let (ex, en) = opt_exponent (CHR ''p'') (drop (2 + n) s)
              in Some (of_int m * scale 2 (ex - 4 * int fl), 2 + n + en)))
      else None)"

text \<open>\<open>NAN\<close> or \<open>NAN(n-char-sequence)\<close>: the number of characters it takes.\<close>

definition nan_len :: "char list \<Rightarrow> nat" where
  "nan_len s = (case drop 3 s of
       [] \<Rightarrow> 3
     | c # r \<Rightarrow>
         if c = CHR ''('' then
           (let ncs = takeWhile (\<lambda>c. isdigit c \<or> isalpha c \<or> c = CHR ''_'') r
            in case drop (length ncs) r of
                 [] \<Rightarrow> 3
               | c' # _ \<Rightarrow> if c' = CHR '')'' then 3 + 1 + length ncs + 1 else 3)
         else 3)"

text \<open>
  \<^verbatim>\<open>strtof(s, &end)\<close> on the C string \<open>s\<close>: the value and the number of characters
  consumed. White space is skipped and a sign is optional; then the longest of
  \<open>INF\<close>, \<open>INFINITY\<close>, \<open>NAN\<close>, a hexadecimal and a decimal floating constant is
  taken. If there is none, no conversion is performed: the value is zero and
  \<^verbatim>\<open>end\<close> is \<^verbatim>\<open>s\<close>.
\<close>

definition strtof :: "char list \<Rightarrow> float32 \<times> nat" where
  "strtof s =
     (let ws = takeWhile isspace s;
          s1 = dropWhile isspace s;
          (neg, sg) = opt_sign s1;
          body = drop sg s1;
          k = length ws + sg
      in if starts_with_ci ''infinity'' body then (Infinite neg, k + 8)
         else if starts_with_ci ''inf'' body then (Infinite neg, k + 3)
         else if starts_with_ci ''nan'' body then (NaN, k + nan_len body)
         else case hex_float body of
                Some (a, n) \<Rightarrow> (mkFloat neg a, k + n)
              | None \<Rightarrow>
                  (case dec_float body of
                     Some (a, n) \<Rightarrow> (mkFloat neg a, k + n)
                   | None \<Rightarrow> (Finite False 0, 0)))"

subsection \<open>\<^verbatim>\<open>search\<close>\<close>

text \<open>
  The inner loop of \<^verbatim>\<open>search\<close> and the test behind it, \<^verbatim>\<open>match && !*pJter\<close>: the
  pattern is compared with the buffer from \<open>pos\<close> on, and the loop also ends where
  \<open>pos\<close> reaches \<open>pe\<close>; the test holds if the whole pattern was matched before.
  The pattern is a string literal: its characters are not NUL, and its end is the NUL.
\<close>

fun search_match :: "char list \<Rightarrow> nat \<Rightarrow> nat \<Rightarrow> char list \<Rightarrow> bool" where
  "search_match buf pos pe [] = True"
| "search_match buf pos pe (c # pat) =
     (if pos = pe then False
      else if c \<noteq> peek buf pos then False
      else search_match buf (pos + 1) pe pat)"

text \<open>
  The outer loop, over \<open>pIter\<close> from \<open>pBegin\<close> to \<open>pe\<close>: the first position where
  the pattern matches, or \<open>None\<close> for the null pointer. The source runs it while
  \<^verbatim>\<open>pIter != pEnd\<close>; every call has \<open>pBegin \<le> pEnd\<close> (\<open>tokenize\<close> keeps
  \<open>pStart \<le> pEnd\<close>), where that is \<open>pIter < pEnd\<close>.
\<close>

function search :: "char list \<Rightarrow> nat \<Rightarrow> nat \<Rightarrow> char list \<Rightarrow> nat option" where
  "search buf pIter pe pPat =
     (if pIter < pe then
        (if search_match buf pIter pe pPat then Some pIter
         else search buf (pIter + 1) pe pPat)
      else None)"
  by pat_completeness auto
termination
  by (relation "measure (\<lambda>(buf, pIter, pe, pPat). pe - pIter)") auto

declare search.simps [simp del]

subsection \<open>\<^verbatim>\<open>tokenize\<close>\<close>

text \<open>
  The lambda \<^verbatim>\<open>appendText\<close>, with the variables it captures as arguments: the pending
  run is \<open>[ps, pe)\<close>. \<^verbatim>\<open>strtof\<close> and \<^verbatim>\<open>strtol\<close> get the pointer \<open>ps\<close>, that is
  the C string from there to the end of the text, not the run alone.
\<close>

definition appendText :: "char list \<Rightarrow> nat \<Rightarrow> nat \<Rightarrow> Token list \<Rightarrow> error + Token list" where
  "appendText buf ps pe outArray =
     (if ps \<noteq> pe then
        (case search buf ps pe ''f32'' of
           Some pC \<Rightarrow>
             if pC \<noteq> pe - 3 then Inl (LexError ''f32 should be at the end'')
             else (let (f, n) = strtof (c_str_at buf ps)
                   in if ps + n \<noteq> pe - 3 then Inl (LexError ''error parsing f32'')
                      else Inr (outArray @ [mkTokenF32 ps (ps + n) f]))
         | None \<Rightarrow>
             (case search buf ps pe ''i32'' of
                Some pC \<Rightarrow>
                  if pC \<noteq> pe - 3 then Inl (LexError ''i32 should be at the end'')
                  else (let (v, n) = strtol (c_str_at buf ps)
                        in if ps + n \<noteq> pe - 3 then Inl (LexError ''error parsing i32'')
                           else Inr (outArray @ [mkTokenI32 ps (ps + n) (word_of_int v)]))
              | None \<Rightarrow> Inr (outArray @ [mkToken NAME ps pe])))
      else Inr outArray)"

text \<open>
  The loop of \<^verbatim>\<open>tokenize\<close>, one call for each test of \<^verbatim>\<open>*pEnd\<close>, and the
  assertion and the return behind the loop. The state is \<open>pStart\<close>, \<open>pEnd\<close>,
  \<open>inString\<close> and \<open>outArray\<close>.
\<close>

function tokenize_loop ::
  "char list \<Rightarrow> nat \<Rightarrow> nat \<Rightarrow> bool \<Rightarrow> Token list \<Rightarrow> error + Token list" where
  "tokenize_loop buf ps pe inString outArray =
     (let c = peek buf pe in
      if c = NUL then
        (if inString then Inl (LexError ''unmatched quotes'') else Inr outArray)
      else if c = CHR 0x20 \<or> c = CHR 0x0A \<or> c = CHR 0x0D \<or> c = CHR 0x09 then
        (if inString then tokenize_loop buf ps (pe + 1) inString outArray
         else case appendText buf ps pe outArray of
                Inl e \<Rightarrow> Inl e
              | Inr out \<Rightarrow> tokenize_loop buf (pe + 1) (pe + 1) inString out)
      else if c = CHR ''('' then
        (if inString then tokenize_loop buf ps (pe + 1) inString outArray
         else case appendText buf ps pe outArray of
                Inl e \<Rightarrow> Inl e
              | Inr out \<Rightarrow>
                  tokenize_loop buf (pe + 1) (pe + 1) inString
                    (out @ [mkToken LP pe (pe + 1)]))
      else if c = CHR '')'' then
        (if inString then tokenize_loop buf ps (pe + 1) inString outArray
         else case appendText buf ps pe outArray of
                Inl e \<Rightarrow> Inl e
              | Inr out \<Rightarrow>
                  tokenize_loop buf (pe + 1) (pe + 1) inString
                    (out @ [mkToken RP pe (pe + 1)]))
      else if c = CHR 0x22 then
        (if inString then
           tokenize_loop buf (pe + 1) (pe + 1) False (outArray @ [mkToken STRING ps pe])
         else case appendText buf ps pe outArray of
                Inl e \<Rightarrow> Inl e
              | Inr out \<Rightarrow> tokenize_loop buf (pe + 1) (pe + 1) True out)
      else tokenize_loop buf ps (pe + 1) inString outArray)"
  by pat_completeness auto
termination
  by (relation "measure (\<lambda>(buf, ps, pe, inString, outArray). length buf - pe)")
     (auto simp: peek_def NUL_def split: if_splits)

declare tokenize_loop.simps [simp del]

definition tokenize :: "char list \<Rightarrow> error + Token list" where
  "tokenize pText = tokenize_loop pText 0 0 False []"

subsection \<open>\<^verbatim>\<open>getLists\<close>\<close>

text \<open>
  A \<^verbatim>\<open>ListNode\<close>. Two of its members can be indeterminate: \<^verbatim>\<open>new ListNode\<close>
  default-initialises the node, which leaves \<^verbatim>\<open>isList\<close> and \<^verbatim>\<open>token\<close> unwritten
  and makes \<^verbatim>\<open>child\<close> the empty vector. \<open>None\<close> is the member that was never
  written.
\<close>

datatype ListNode = ListNode (isList: "bool option") (token: "Token option") (child: "ListNode list")

text \<open>
  The nodes are owned by the tree under \<^verbatim>\<open>root\<close> (\<open>rootNode\<close> below, as
  \<open>root\<close> is a constant of the library), and \<^verbatim>\<open>curNode\<close> and the
  entries of \<^verbatim>\<open>nodeStack\<close> point into it. A pointer to a node is the path to it from
  the root: the indices of the children to go through. \<open>node_at\<close> reads through a
  pointer, \<open>emplace_back\<close> is \<^verbatim>\<open>p->child.emplace_back(n)\<close>, which changes the
  tree under the root and moves no node.
\<close>

fun node_at :: "ListNode \<Rightarrow> nat list \<Rightarrow> ListNode" where
  "node_at n [] = n"
| "node_at n (i # p) = node_at (child n ! i) p"

fun emplace_back :: "nat list \<Rightarrow> ListNode \<Rightarrow> ListNode \<Rightarrow> ListNode" where
  "emplace_back [] new (ListNode l t cs) = ListNode l t (cs @ [new])"
| "emplace_back (i # p) new (ListNode l t cs) =
     ListNode l t (cs[i := emplace_back p new (cs ! i)])"

text \<open>
  The loop of \<^verbatim>\<open>getLists\<close> over the tokens and the return behind it. The head of
  \<open>nodeStack\<close> is the back of the vector.
\<close>

fun getLists_loop ::
  "Token list \<Rightarrow> ListNode \<Rightarrow> nat list list \<Rightarrow> nat list \<Rightarrow> error + ListNode" where
  "getLists_loop [] rootNode nodeStack curNode = Inr rootNode"
| "getLists_loop (tok # tokens) rootNode nodeStack curNode =
     (case type tok of
        LP \<Rightarrow>
          getLists_loop tokens
            (emplace_back curNode (ListNode None None []) rootNode)
            (curNode # nodeStack)
            (curNode @ [length (child (node_at rootNode curNode))])
      | RP \<Rightarrow>
          (case nodeStack of
             [] \<Rightarrow> Inl (ParseError ''unbalanced parentheses'')
           | back # rest \<Rightarrow> getLists_loop tokens rootNode rest back)
      | _ \<Rightarrow>
          getLists_loop tokens
            (emplace_back curNode (ListNode (Some False) (Some tok) []) rootNode)
            nodeStack curNode)"

definition getLists :: "Token list \<Rightarrow> error + ListNode" where
  "getLists tokens = getLists_loop tokens (ListNode (Some True) None []) [] []"

text \<open>\<^verbatim>\<open>parse\<close>, as far as the tree: the tokens of the text, then their lists.\<close>

definition parse_lists :: "char list \<Rightarrow> error + ListNode" where
  "parse_lists source = (case tokenize source of Inl e \<Rightarrow> Inl e | Inr tokens \<Rightarrow> getLists tokens)"

subsection \<open>Notions of the properties\<close>

text \<open>The number of tokens of one type.\<close>

definition count_of :: "TokenType \<Rightarrow> Token list \<Rightarrow> nat" where
  "count_of ty toks = length (filter (\<lambda>t. type t = ty) toks)"

text \<open>A token that is not a parenthesis.\<close>

definition is_atom_token :: "Token \<Rightarrow> bool" where
  "is_atom_token t = (type t \<noteq> LP \<and> type t \<noteq> RP)"

text \<open>
  Balanced parentheses: \<open>open_lists d\<close> runs over the tokens with the number of
  lists that are open, \<open>d\<close> at the start, and is \<open>None\<close> where a RightParen finds
  no open list. The tokens are balanced if no list is open behind the last one.
\<close>

fun open_lists :: "nat \<Rightarrow> Token list \<Rightarrow> nat option" where
  "open_lists d [] = Some d"
| "open_lists d (t # ts) =
     (if type t = LP then open_lists (Suc d) ts
      else if type t = RP then (case d of 0 \<Rightarrow> None | Suc d' \<Rightarrow> open_lists d' ts)
      else open_lists d ts)"

definition balanced :: "Token list \<Rightarrow> bool" where
  "balanced toks = (open_lists 0 toks = Some 0)"

text \<open>
  \<^verbatim>\<open>node->isList\<close> as the program reads it (\<^verbatim>\<open>operator<<\<close> branches on it). The
  member is a \<^verbatim>\<open>bool\<close>: a read gives true or false also where the member was never
  written, and the program does not determine which. \<open>u\<close> is what such a read gives;
  it is false where the allocation hands out zeroed memory.
\<close>

definition reads_isList :: "bool \<Rightarrow> ListNode \<Rightarrow> bool" where
  "reads_isList u n = (case isList n of None \<Rightarrow> u | Some b \<Rightarrow> b)"

text \<open>The atom nodes of a tree: the nodes whose \<^verbatim>\<open>isList\<close> reads as false.\<close>

fun atomCount :: "bool \<Rightarrow> ListNode \<Rightarrow> nat" where
  "atomCount u (ListNode l t cs) =
     (if reads_isList u (ListNode l t cs) then 0 else 1) + sum_list (map (atomCount u) cs)"

text \<open>A pointer that points to a node of the tree.\<close>

fun valid_path :: "ListNode \<Rightarrow> nat list \<Rightarrow> bool" where
  "valid_path n [] = True"
| "valid_path n (i # p) = (i < length (child n) \<and> valid_path (child n ! i) p)"

text \<open>
  The characters at which \<^verbatim>\<open>tokenize\<close> closes a run, and the characters of a run.
\<close>

definition is_delimiter :: "char \<Rightarrow> bool" where
  "is_delimiter c = (c = CHR 0x20 \<or> c = CHR 0x0A \<or> c = CHR 0x0D \<or> c = CHR 0x09
                     \<or> c = CHR ''('' \<or> c = CHR '')'' \<or> c = CHR 0x22)"

definition run_char :: "char \<Rightarrow> bool" where
  "run_char c = (c \<noteq> NUL \<and> \<not> is_delimiter c)"

text \<open>
  The token that \<^verbatim>\<open>tokenize\<close> makes for the delimiter \<open>d\<close> at offset \<open>e\<close>: one
  for a parenthesis, none for white space and for a quote.
\<close>

definition delimiter_token :: "char \<Rightarrow> nat \<Rightarrow> Token list" where
  "delimiter_token d e = (if d = CHR ''('' then [mkToken LP e (e + 1)]
                          else if d = CHR '')'' then [mkToken RP e (e + 1)] else [])"


section \<open>Properties\<close>

subsection \<open>Lists left open at the end of the tokens\<close>

text \<open>
  C1. The claim: a token sequence in which a list is still open behind the last token
  makes the tree builder fail with a ParseError. \<^verbatim>\<open>getLists\<close> does not look at
  \<^verbatim>\<open>nodeStack\<close> behind its loop: for the one token of the text \<open>(\<close> it returns the
  root with the open list as its child.
\<close>

theorem getLists_open_list_returns_tree:
  "tokenize ''('' = Inr [mkToken LP 0 1] \<and>
   getLists [mkToken LP 0 1] = Inr (ListNode (Some True) None [ListNode None None []])"
  by code_simp

subsection \<open>A run that reaches the end of the text\<close>

text \<open>
  C2. The claim: the texts \<open>42i32\<close> and \<open>3.5f32\<close> give one token each, as a run
  that is pending at the end of the input is closed like any other. \<^verbatim>\<open>tokenize\<close>
  calls \<^verbatim>\<open>appendText\<close> at the delimiters only, not behind its loop: both texts
  give no token at all.
\<close>

theorem tokenize_drops_final_run:
  "tokenize ''42i32'' = Inr [] \<and> tokenize ''3.5f32'' = Inr []"
  by code_simp

text \<open>Closed by a delimiter, the two runs give the tokens the claim names.\<close>

lemma tokenize_numeric_runs_closed:
  "tokenize ''42i32 '' = Inr [mkTokenI32 0 2 42]"
  "tokenize ''3.5f32 '' = Inr [mkTokenF32 0 3 (Finite False (7 / 2))]"
  by code_simp+

subsection \<open>The nodes of the lists below the root\<close>

text \<open>
  C4. The claim: the node made for a LeftParen is marked as a List node, so that every
  node of a returned tree that is not an atom is marked as a List. \<^verbatim>\<open>getLists\<close>
  sets \<^verbatim>\<open>isList\<close> for the root only; the node made by \<^verbatim>\<open>new ListNode\<close> for a
  LeftParen keeps an \<^verbatim>\<open>isList\<close> that was never written.
\<close>

theorem getLists_inner_list_unmarked:
  "tokenize ''()'' = Inr [mkToken LP 0 1, mkToken RP 1 2] \<and>
   getLists [mkToken LP 0 1, mkToken RP 1 2]
     = Inr (ListNode (Some True) None [ListNode None None []]) \<and>
   isList (ListNode None None []) \<noteq> Some True"
  by code_simp

subsection \<open>Numeric suffixes behind a prefix that is no number\<close>

text \<open>
  C5. The claim: a run that ends with \<open>i32\<close> or \<open>f32\<close> and whose prefix is not a
  number, the empty prefix among them, makes the tokenizer fail, and no numeric token with
  a default value is made. For the run \<open>i32\<close> \<^verbatim>\<open>strtol\<close> converts nothing and
  leaves its end pointer at the start of the run, which is where the assertion expects
  it, three characters before the end: the run gives an I32 token of value 0 and of
  empty span. The run \<open>f32\<close> does the same with \<^verbatim>\<open>strtof\<close>.
\<close>

theorem tokenize_empty_prefix_numeric:
  "tokenize ''i32 '' = Inr [mkTokenI32 0 0 0] \<and>
   tokenize ''f32 '' = Inr [mkTokenF32 0 0 (Finite False 0)]"
  by code_simp

text \<open>A prefix that is not empty and not a number fails, as the claim says.\<close>

lemma tokenize_abci32:
  "tokenize ''abci32 '' = Inl (LexError ''error parsing i32'')"
  by code_simp

subsection \<open>A RightParen without an open list\<close>

text \<open>
  While the loop of \<^verbatim>\<open>getLists\<close> runs, the length of \<^verbatim>\<open>nodeStack\<close> is the number
  of lists that are open.
\<close>

lemma getLists_loop_unmatched_rp:
  "\<exists>n\<le>length toks. count_of LP (take n toks) + length stack < count_of RP (take n toks)
   \<Longrightarrow> getLists_loop toks r stack cur = Inl (ParseError ''unbalanced parentheses'')"
proof (induction toks arbitrary: r stack cur)
  case Nil
  then show ?case by (simp add: count_of_def)
next
  case (Cons tok toks)
  then obtain n where n: "n \<le> length (tok # toks)"
      "count_of LP (take n (tok # toks)) + length stack < count_of RP (take n (tok # toks))"
    by blast
  then obtain m where m: "n = Suc m"
    by (cases n) (simp_all add: count_of_def)
  show ?case
  proof (cases "type tok = LP")
    case True
    with n m have "\<exists>k\<le>length toks.
        count_of LP (take k toks) + length (cur # stack) < count_of RP (take k toks)"
      by (intro exI[of _ m]) (simp add: count_of_def)
    from Cons.IH[OF this] True show ?thesis by simp
  next
    case notLP: False
    show ?thesis
    proof (cases "type tok = RP")
      case True
      show ?thesis
      proof (cases stack)
        case Nil
        with True show ?thesis by simp
      next
        case (Cons b rest)
        with n m True have "\<exists>k\<le>length toks.
            count_of LP (take k toks) + length rest < count_of RP (take k toks)"
          by (intro exI[of _ m]) (simp add: count_of_def)
        from Cons.IH[OF this] True Cons show ?thesis by simp
      qed
    next
      case False
      with n m notLP have "\<exists>k\<le>length toks.
          count_of LP (take k toks) + length stack < count_of RP (take k toks)"
        by (intro exI[of _ m]) (simp add: count_of_def)
      from Cons.IH[OF this] notLP False show ?thesis by (cases "type tok") simp_all
    qed
  qed
qed

text \<open>
  C6. For every token sequence with a RightParen at a point where no list is open, that
  is, with a prefix in which the RightParen tokens outnumber the LeftParen tokens, the
  tree builder fails with a ParseError, and so returns no tree.
\<close>

theorem getLists_unmatched_rp:
  "\<exists>n\<le>length toks. count_of LP (take n toks) < count_of RP (take n toks)
   \<Longrightarrow> getLists toks = Inl (ParseError ''unbalanced parentheses'')"
  unfolding getLists_def by (rule getLists_loop_unmatched_rp) simp

theorem getLists_unmatched_rp_witness:
  "tokenize '')'' = Inr [mkToken RP 0 1] \<and>
   (\<exists>n\<le>length [mkToken RP 0 1].
       count_of LP (take n [mkToken RP 0 1]) < count_of RP (take n [mkToken RP 0 1])) \<and>
   getLists [mkToken RP 0 1] = Inl (ParseError ''unbalanced parentheses'')"
proof -
  have h: "\<exists>n\<le>length [mkToken RP 0 1].
       count_of LP (take n [mkToken RP 0 1]) < count_of RP (take n [mkToken RP 0 1])"
    by (rule exI[of _ 1]) (simp add: count_of_def mkToken_def)
  have t: "tokenize '')'' = Inr [mkToken RP 0 1]" by code_simp
  from h t getLists_unmatched_rp[OF h] show ?thesis by blast
qed

subsection \<open>The atoms of the tree\<close>

lemma atomCount_emplace_back:
  "valid_path r p \<Longrightarrow> atomCount u (emplace_back p n r) = atomCount u r + atomCount u n"
proof (induction p arbitrary: r)
  case Nil
  then show ?case by (cases r) (simp add: reads_isList_def)
next
  case (Cons i p)
  obtain l t cs where r: "r = ListNode l t cs" by (cases r)
  from Cons.prems r have i: "i < length cs" and v: "valid_path (cs ! i) p" by simp_all
  have "sum_list (map (atomCount u) (cs[i := emplace_back p n (cs ! i)]))
        = sum_list (map (atomCount u) cs) + atomCount u n"
    using i Cons.IH[OF v] by (simp add: map_update sum_list_update)
  with r show ?case by (simp add: reads_isList_def)
qed

lemma valid_path_emplace_back:
  "valid_path r q \<Longrightarrow> valid_path (emplace_back p n r) q"
proof (induction p arbitrary: r q)
  case Nil
  then show ?case by (cases r; cases q) (auto simp: nth_append)
next
  case (Cons i p)
  obtain l t cs where r: "r = ListNode l t cs" by (cases r)
  show ?case
  proof (cases q)
    case Nil
    then show ?thesis by simp
  next
    case (Cons j q')
    with Cons.prems r have j: "j < length cs" and v: "valid_path (cs ! j) q'" by simp_all
    show ?thesis
    proof (cases "j = i")
      case True
      with j v r Cons Cons.IH[of "cs ! i" q'] show ?thesis by simp
    next
      case False
      with j v r Cons show ?thesis by simp
    qed
  qed
qed

lemma valid_path_new_child:
  "valid_path r p \<Longrightarrow> valid_path (emplace_back p n r) (p @ [length (child (node_at r p))])"
proof (induction p arbitrary: r)
  case Nil
  then show ?case by (cases r) simp
next
  case (Cons i p)
  obtain l t cs where r: "r = ListNode l t cs" by (cases r)
  from Cons.prems r have i: "i < length cs" and v: "valid_path (cs ! i) p" by simp_all
  from Cons.IH[OF v] i r show ?case by simp
qed

text \<open>
  Every token that is not a parenthesis adds one node that reads as an atom; every LP adds
  one node whose \<^verbatim>\<open>isList\<close> is not written, which reads as an atom unless \<open>u\<close>.
\<close>

lemma getLists_loop_atomCount:
  "valid_path r cur \<Longrightarrow> \<forall>p\<in>set stack. valid_path r p \<Longrightarrow>
   getLists_loop toks r stack cur = Inr res \<Longrightarrow>
   atomCount u res = atomCount u r + length (filter is_atom_token toks)
                     + (if u then 0 else count_of LP toks)"
proof (induction toks arbitrary: r stack cur)
  case Nil
  then show ?case by (simp add: count_of_def)
next
  case (Cons tok toks)
  show ?case
  proof (cases "type tok = LP")
    case True
    let ?r = "emplace_back cur (ListNode None None []) r"
    have 1: "valid_path ?r (cur @ [length (child (node_at r cur))])"
      using Cons.prems(1) by (rule valid_path_new_child)
    have 2: "\<forall>p\<in>set (cur # stack). valid_path ?r p"
      using Cons.prems(1,2) by (simp add: valid_path_emplace_back)
    have 3: "getLists_loop toks ?r (cur # stack) (cur @ [length (child (node_at r cur))]) = Inr res"
      using Cons.prems(3) True by simp
    from Cons.IH[OF 1 2 3] True Cons.prems(1) show ?thesis
      by (simp add: atomCount_emplace_back is_atom_token_def count_of_def reads_isList_def)
  next
    case notLP: False
    show ?thesis
    proof (cases "type tok = RP")
      case True
      with Cons.prems(3) obtain b rest where s: "stack = b # rest"
        and 3: "getLists_loop toks r rest b = Inr res"
        by (cases stack) simp_all
      from s Cons.prems(2) have 1: "valid_path r b" and 2: "\<forall>p\<in>set rest. valid_path r p"
        by simp_all
      from Cons.IH[OF 1 2 3] True show ?thesis by (simp add: is_atom_token_def count_of_def)
    next
      case False
      let ?r = "emplace_back cur (ListNode (Some False) (Some tok) []) r"
      have 1: "valid_path ?r cur" using Cons.prems(1) by (rule valid_path_emplace_back)
      have 2: "\<forall>p\<in>set stack. valid_path ?r p"
        using Cons.prems(2) by (simp add: valid_path_emplace_back)
      have 3: "getLists_loop toks ?r stack cur = Inr res"
        using Cons.prems(3) notLP False by (cases "type tok") simp_all
      from Cons.IH[OF 1 2 3] notLP False Cons.prems(1) show ?thesis
        by (simp add: atomCount_emplace_back is_atom_token_def count_of_def reads_isList_def)
    qed
  qed
qed

lemma getLists_loop_succeeds:
  "open_lists (length stack) toks = Some d \<Longrightarrow> \<exists>res. getLists_loop toks r stack cur = Inr res"
proof (induction toks arbitrary: r stack cur)
  case Nil
  then show ?case by simp
next
  case (Cons tok toks)
  show ?case
  proof (cases "type tok = LP")
    case True
    with Cons.prems have "open_lists (length (cur # stack)) toks = Some d" by simp
    from Cons.IH[OF this] True show ?thesis by simp
  next
    case notLP: False
    show ?thesis
    proof (cases "type tok = RP")
      case True
      with Cons.prems obtain b rest where s: "stack = b # rest"
        by (cases stack) simp_all
      with True Cons.prems have "open_lists (length rest) toks = Some d" by simp
      from Cons.IH[OF this] True s show ?thesis by simp
    next
      case False
      with notLP Cons.prems have "open_lists (length stack) toks = Some d" by simp
      from Cons.IH[OF this] notLP False show ?thesis by (cases "type tok") simp_all
    qed
  qed
qed

text \<open>
  For a text that the tokenizer accepts and whose parenthesis tokens are balanced,
  building the lists succeeds. The nodes that read as atoms are as many as the tokens that
  are not parentheses only if the unwritten \<^verbatim>\<open>isList\<close> of the inner lists reads as
  true; if it reads as false, every LP token adds one more.
\<close>

lemma parse_lists_atoms:
  assumes "tokenize s = Inr toks" and "balanced toks"
  shows "\<exists>tree. parse_lists s = Inr tree \<and>
           atomCount u tree = length (filter is_atom_token toks)
                              + (if u then 0 else count_of LP toks)"
proof -
  from assms(2) have "open_lists (length ([] :: nat list list)) toks = Some 0"
    by (simp add: balanced_def)
  then obtain tree where t: "getLists toks = Inr tree"
    unfolding getLists_def using getLists_loop_succeeds by blast
  then have "atomCount u tree = atomCount u (ListNode (Some True) None [])
               + length (filter is_atom_token toks) + (if u then 0 else count_of LP toks)"
    unfolding getLists_def
    by (intro getLists_loop_atomCount[where stack = "[]" and cur = "[]"]) simp_all
  with t assms(1) show ?thesis by (simp add: parse_lists_def reads_isList_def)
qed

text \<open>
  C7. The claim: for a text with balanced parentheses and without an error in a literal,
  building the lists of its tokens succeeds, and the tree has as many atom nodes as there
  are tokens that are not parentheses. The text \<open>()\<close> has no such token. Its tree is
  built, but the node of its list has an \<^verbatim>\<open>isList\<close> that was never written (the
  defect of C4): where that reads as false the tree has one node that is an atom.
\<close>

theorem parse_lists_atomCount_unmarked:
  "tokenize ''()'' = Inr [mkToken LP 0 1, mkToken RP 1 2] \<and>
   balanced [mkToken LP 0 1, mkToken RP 1 2] \<and>
   length (filter is_atom_token [mkToken LP 0 1, mkToken RP 1 2]) = 0 \<and>
   parse_lists ''()'' = Inr (ListNode (Some True) None [ListNode None None []]) \<and>
   atomCount False (ListNode (Some True) None [ListNode None None []]) = 1"
  by code_simp

subsection \<open>The text ends at the first NUL\<close>

lemma peek_nul_cut: "i \<le> length xs \<Longrightarrow> peek (xs @ NUL # ys) i = peek xs i"
  by (auto simp: peek_def nth_append)

lemma search_match_cong:
  "pos \<le> pe \<Longrightarrow> (\<And>i. pos \<le> i \<Longrightarrow> i < pe \<Longrightarrow> peek b1 i = peek b2 i) \<Longrightarrow>
   search_match b1 pos pe pat = search_match b2 pos pe pat"
proof (induction pat arbitrary: pos)
  case Nil
  then show ?case by simp
next
  case (Cons c pat)
  show ?case
  proof (cases "pos = pe")
    case True
    then show ?thesis by simp
  next
    case False
    with Cons.prems have lt: "pos < pe" by simp
    then have p: "peek b1 pos = peek b2 pos" using Cons.prems(2) by simp
    have "search_match b1 (pos + 1) pe pat = search_match b2 (pos + 1) pe pat"
      using lt Cons.prems(2) by (intro Cons.IH) simp_all
    with p False show ?thesis by simp
  qed
qed

lemma search_cong:
  "(\<And>i. i < pe \<Longrightarrow> peek b1 i = peek b2 i) \<Longrightarrow> search b1 p pe pat = search b2 p pe pat"
proof (induction b1 p pe pat rule: search.induct)
  case (1 buf pIter pe pPat)
  show ?case
  proof (cases "pIter < pe")
    case False
    then show ?thesis by (simp add: search.simps)
  next
    case True
    have m: "search_match buf pIter pe pPat = search_match b2 pIter pe pPat"
      using True "1.prems" by (intro search_match_cong) simp_all
    show ?thesis
    proof (cases "search_match buf pIter pe pPat")
      case True
      with m \<open>pIter < pe\<close> show ?thesis by (simp add: search.simps)
    next
      case False
      from "1.IH"[OF \<open>pIter < pe\<close> False "1.prems"] m False \<open>pIter < pe\<close>
      show ?thesis by (simp add: search.simps[of buf pIter] search.simps[of b2 pIter])
    qed
  qed
qed

lemma takeWhile_cut: "\<not> P c \<Longrightarrow> takeWhile P (xs @ c # ys) = takeWhile P xs"
  by (induction xs) auto

lemma c_str_at_nul_cut: "p \<le> length xs \<Longrightarrow> c_str_at (xs @ NUL # ys) p = c_str_at xs p"
  by (simp add: c_str_at_def takeWhile_cut)

lemma appendText_nul_cut:
  assumes "ps \<le> pe" "pe \<le> length xs"
  shows "appendText (xs @ NUL # ys) ps pe out = appendText xs ps pe out"
proof -
  have s: "search (xs @ NUL # ys) ps pe pat = search xs ps pe pat" for pat
    using assms by (intro search_cong peek_nul_cut) simp
  have c: "c_str_at (xs @ NUL # ys) ps = c_str_at xs ps"
    using assms by (intro c_str_at_nul_cut) simp
  show ?thesis unfolding appendText_def s c ..
qed

lemma tokenize_loop_nul_cut:
  "ps \<le> pe \<Longrightarrow> pe \<le> length xs \<Longrightarrow>
   tokenize_loop (xs @ NUL # ys) ps pe b out = tokenize_loop xs ps pe b out"
proof (induction "length xs - pe" arbitrary: ps pe b out rule: less_induct)
  case less
  have pk: "peek (xs @ NUL # ys) pe = peek xs pe"
    using less.prems by (simp add: peek_nul_cut)
  have at: "appendText (xs @ NUL # ys) ps pe out' = appendText xs ps pe out'" for out'
    using less.prems by (rule appendText_nul_cut)
  show ?case
  proof (cases "peek xs pe = NUL")
    case True
    with pk show ?thesis
      by (simp add: tokenize_loop.simps[of _ ps pe])
  next
    case False
    then have lt: "pe < length xs" by (auto simp: peek_def split: if_splits)
    have IH: "tokenize_loop (xs @ NUL # ys) ps' (pe + 1) b' out'
              = tokenize_loop xs ps' (pe + 1) b' out'" if "ps' \<le> pe + 1" for ps' b' out'
      using lt that by (intro less.hyps) simp_all
    have IH1: "tokenize_loop (xs @ NUL # ys) ps (Suc pe) b' out'
              = tokenize_loop xs ps (Suc pe) b' out'" for b' out'
      using IH[of ps] less.prems by simp
    have IH2: "tokenize_loop (xs @ NUL # ys) (Suc pe) (Suc pe) b' out'
              = tokenize_loop xs (Suc pe) (Suc pe) b' out'" for b' out'
      using IH[of "Suc pe"] by simp
    show ?thesis
      by (simp add: tokenize_loop.simps[of _ ps pe] pk at IH1 IH2 Let_def split: sum.splits)
  qed
qed

text \<open>
  C10. The tokenizer reads its text as a NUL-terminated string: the result for a buffer,
  tokens or error, is the result for the prefix in front of its first NUL, and what
  stands behind a NUL changes nothing.
\<close>

theorem tokenize_nul_terminated:
  "tokenize buf = tokenize (takeWhile (\<lambda>c. c \<noteq> NUL) buf) \<and>
   tokenize (xs @ NUL # ys) = tokenize xs"
proof
  show "tokenize buf = tokenize (takeWhile (\<lambda>c. c \<noteq> NUL) buf)"
  proof (cases "dropWhile (\<lambda>c. c \<noteq> NUL) buf")
    case Nil
    then have "takeWhile (\<lambda>c. c \<noteq> NUL) buf = buf"
      by (metis append_Nil2 takeWhile_dropWhile_id)
    then show ?thesis by (simp only:)
  next
    case (Cons c zs)
    then have "c = NUL" using hd_dropWhile[of "\<lambda>c. c \<noteq> NUL" buf] by auto
    with Cons have "buf = takeWhile (\<lambda>c. c \<noteq> NUL) buf @ NUL # zs"
      by (metis takeWhile_dropWhile_id)
    then show ?thesis
      unfolding tokenize_def
      using tokenize_loop_nul_cut[of 0 0 "takeWhile (\<lambda>c. c \<noteq> NUL) buf" zs False "[]"]
      by simp
  qed
  show "tokenize (xs @ NUL # ys) = tokenize xs"
    unfolding tokenize_def by (rule tokenize_loop_nul_cut) simp_all
qed

subsection \<open>The spans of the tokens\<close>






subsection \<open>Runs without a numeric suffix\<close>

lemma tokenize_loop_run_char:
  "run_char (peek buf pe) \<Longrightarrow> tokenize_loop buf ps pe b out = tokenize_loop buf ps (Suc pe) b out"
  by (subst tokenize_loop.simps) (simp add: run_char_def is_delimiter_def Let_def)

lemma tokenize_loop_skip_run:
  "(\<And>i. pe \<le> i \<Longrightarrow> i < pe + k \<Longrightarrow> run_char (peek buf i)) \<Longrightarrow>
   tokenize_loop buf ps pe b out = tokenize_loop buf ps (pe + k) b out"
proof (induction k arbitrary: pe)
  case 0
  then show ?case by simp
next
  case (Suc k)
  have "tokenize_loop buf ps pe b out = tokenize_loop buf ps (Suc pe) b out"
    using Suc.prems[of pe] by (intro tokenize_loop_run_char) simp
  also have "\<dots> = tokenize_loop buf ps (Suc pe + k) b out"
    using Suc.prems by (intro Suc.IH) simp_all
  finally show ?case by simp
qed

text \<open>
  The run that reaches the end of the text (see C2): whatever its characters are, the
  loop ends behind it and returns the tokens made before, without a token for the run
  and without a failure.
\<close>

lemma tokenize_loop_final_run:
  assumes "\<forall>c\<in>set run. run_char c"
  shows "tokenize_loop (pre @ run) (length pre) (length pre) False out = Inr out"
proof -
  have "run_char (peek (pre @ run) i)" if "length pre \<le> i" "i < length pre + length run" for i
  proof -
    from that have "peek (pre @ run) i = run ! (i - length pre)" "i - length pre < length run"
      by (auto simp: peek_def nth_append)
    with assms show ?thesis by (metis nth_mem)
  qed
  then have "tokenize_loop (pre @ run) (length pre) (length pre) False out
             = tokenize_loop (pre @ run) (length pre) (length pre + length run) False out"
    by (rule tokenize_loop_skip_run)
  also have "\<dots> = Inr out"
    by (subst tokenize_loop.simps) (simp add: peek_def)
  finally show ?thesis .
qed

lemma tokenize_loop_delimiter:
  assumes "is_delimiter (peek buf pe)" and "appendText buf ps pe out = Inr out'"
  shows "tokenize_loop buf ps pe False out =
         tokenize_loop buf (Suc pe) (Suc pe) (peek buf pe = CHR 0x22)
           (out' @ (if peek buf pe = CHR ''('' then [mkToken LP pe (Suc pe)]
                    else if peek buf pe = CHR '')'' then [mkToken RP pe (Suc pe)] else []))"
  using assms
  by (subst tokenize_loop.simps) (auto simp: is_delimiter_def Let_def NUL_def)

lemma search_match_prefix:
  "search_match buf pos pe pat \<Longrightarrow> pos \<le> pe \<Longrightarrow> pe \<le> length buf \<Longrightarrow>
   prefix pat (span_text buf pos pe)"
proof (induction pat arbitrary: pos)
  case Nil
  then show ?case by simp
next
  case (Cons c pat)
  from Cons.prems have ne: "pos \<noteq> pe" and c: "c = peek buf pos"
    and m: "search_match buf (pos + 1) pe pat"
    by (auto split: if_splits)
  with Cons.prems have lt: "pos < pe" "pos < length buf" by simp_all
  from Cons.IH[OF m] lt Cons.prems have p: "prefix pat (span_text buf (Suc pos) pe)" by simp
  have "span_text buf pos pe = buf ! pos # span_text buf (Suc pos) pe"
    using lt by (simp add: span_text_def Cons_nth_drop_Suc[symmetric] take_Cons')
  with p c lt show ?case by (simp add: peek_def)
qed

lemma search_Some:
  "search buf p pe pat = Some i \<Longrightarrow> p \<le> i \<and> i < pe \<and> search_match buf i pe pat"
proof (induction buf p pe pat rule: search.induct)
  case (1 buf pIter pe pPat)
  show ?case
  proof (cases "pIter < pe \<and> \<not> search_match buf pIter pe pPat")
    case True
    with "1.prems" have "search buf (pIter + 1) pe pPat = Some i"
      by (simp add: search.simps[of buf pIter])
    with "1.IH" True show ?thesis by auto
  next
    case False
    with "1.prems" show ?thesis
      by (auto simp: search.simps[of buf pIter] split: if_splits)
  qed
qed

lemma search_None:
  assumes "\<not> sublist pat (span_text buf ps pe)" "ps \<le> pe" "pe \<le> length buf"
  shows "search buf ps pe pat = None"
proof (rule ccontr)
  assume "search buf ps pe pat \<noteq> None"
  then obtain i where "search buf ps pe pat = Some i" by auto
  then have i: "ps \<le> i" "i < pe" "search_match buf i pe pat" by (auto dest: search_Some)
  with assms have "prefix pat (span_text buf i pe)" by (intro search_match_prefix) simp_all
  moreover have "span_text buf i pe = drop (i - ps) (span_text buf ps pe)"
    using i by (simp add: span_text_def drop_take)
  ultimately have "sublist pat (span_text buf ps pe)"
    by (metis sublist_altdef' suffix_drop)
  with assms show False by simp
qed

lemma appendText_Name:
  assumes "ps < pe" "pe \<le> length buf"
    and "\<not> sublist ''f32'' (span_text buf ps pe)" "\<not> sublist ''i32'' (span_text buf ps pe)"
  shows "appendText buf ps pe out = Inr (out @ [mkToken NAME ps pe])"
  using assms by (simp add: appendText_def search_None)

lemma span_text_append: "span_text (pre @ run @ rest) (length pre) (length pre + length run) = run"
  by (simp add: span_text_def)

lemma peek_append_run:
  "i < length run \<Longrightarrow> peek (pre @ run @ rest) (length pre + i) = run ! i"
  by (simp add: peek_def nth_append)

lemma peek_append_delim: "peek (pre @ run @ d # rest) (length pre + length run) = d"
  by (simp add: peek_def nth_append)

text \<open>The loop only appends to the tokens it has.\<close>

lemma appendText_prefix: "appendText buf ps pe out = Inr out' \<Longrightarrow> prefix out out'"
  by (auto simp: appendText_def Let_def split: if_splits option.splits prod.splits)

lemma tokenize_loop_prefix:
  "tokenize_loop buf ps pe b out = Inr toks \<Longrightarrow> prefix out toks"
proof (induction "length buf - pe" arbitrary: ps pe b out rule: less_induct)
  case less
  show ?case
  proof (cases "peek buf pe = NUL")
    case True
    with less.prems show ?thesis
      by (simp add: tokenize_loop.simps[of _ ps pe] split: if_splits)
  next
    case False
    then have lt: "pe < length buf" by (auto simp: peek_def split: if_splits)
    have IH: "prefix out' toks"
      if "tokenize_loop buf ps' (Suc pe) b' out' = Inr toks" for ps' b' out'
      using lt that less.hyps[of "Suc pe" ps' b' out'] by simp
    have AT: "prefix out out'" if "appendText buf ps pe out = Inr out'" for out'
      using that by (rule appendText_prefix)
    have tr: "prefix out toks" if "prefix out out'" "prefix (out' @ ys) toks" for out' ys
      using that by (meson prefix_order.trans prefixI)
    have tr0: "prefix out toks" if "prefix out out'" "prefix out' toks" for out'
      using that by (rule prefix_order.trans)
    from less.prems False show ?thesis
      apply (subst (asm) tokenize_loop.simps)
      apply (simp add: Let_def split: if_splits sum.splits)
      by (blast intro: IH AT tr tr0 dest: IH)+
  qed
qed

lemma search_match_iff:
  "pos \<le> pe \<Longrightarrow> pe \<le> length buf \<Longrightarrow>
   search_match buf pos pe pat = prefix pat (span_text buf pos pe)"
proof (induction pat arbitrary: pos)
  case Nil
  then show ?case by simp
next
  case (Cons c pat)
  show ?case
  proof (cases "pos = pe")
    case True
    then show ?thesis by (simp add: span_text_def)
  next
    case False
    with Cons.prems have lt: "pos < pe" "pos < length buf" by simp_all
    have sp: "span_text buf pos pe = buf ! pos # span_text buf (Suc pos) pe"
      using lt by (simp add: span_text_def Cons_nth_drop_Suc[symmetric] take_Cons')
    have "search_match buf (pos + 1) pe pat = prefix pat (span_text buf (pos + 1) pe)"
      using lt Cons.prems by (intro Cons.IH) simp_all
    with False lt sp show ?thesis by (auto simp: peek_def)
  qed
qed

lemma search_finds:
  "ps \<le> i \<Longrightarrow> i < pe \<Longrightarrow> search_match buf i pe pat \<Longrightarrow> \<exists>j. search buf ps pe pat = Some j"
proof (induction buf ps pe pat rule: search.induct)
  case (1 buf pIter pe pPat)
  show ?case
  proof (cases "search_match buf pIter pe pPat")
    case True
    with "1.prems" show ?thesis by (simp add: search.simps[of buf pIter])
  next
    case False
    with "1.prems" have "pIter \<noteq> i" by auto
    with "1.prems" have "pIter + 1 \<le> i" "pIter < pe" by simp_all
    from "1.IH"[OF this(2) False this(1) "1.prems"(2,3)] False \<open>pIter < pe\<close>
    show ?thesis by (simp add: search.simps[of buf pIter])
  qed
qed

text \<open>Where the pattern occurs in the run, the search finds an occurrence.\<close>

lemma search_sublist:
  assumes "sublist pat (span_text buf ps pe)" "pat \<noteq> []" "ps \<le> pe" "pe \<le> length buf"
  shows "\<exists>j. search buf ps pe pat = Some j \<and> ps \<le> j \<and> j < pe
              \<and> prefix pat (span_text buf j pe)"
proof -
  let ?run = "span_text buf ps pe"
  have len: "length ?run = pe - ps" using assms(3,4) by (simp add: span_text_def)
  from assms(1) obtain u v where uv: "?run = u @ pat @ v" by (auto simp: sublist_def)
  let ?i = "ps + length u"
  from uv len assms(2) have i: "?i < pe"
    by (metis (no_types, lifting) add_diff_inverse_nat assms(3) length_append length_greater_0_conv
        less_add_same_cancel1 nat_add_left_cancel_less not_less trans_less_add1)
  have "span_text buf ?i pe = drop (length u) ?run"
    using i by (simp add: span_text_def drop_take add.commute)
  with uv have "prefix pat (span_text buf ?i pe)" by simp
  with i assms(4) have "search_match buf ?i pe pat" by (simp add: search_match_iff)
  with i obtain j where j: "search buf ps pe pat = Some j"
    using search_finds[of ps ?i pe buf pat] by auto
  then have "ps \<le> j" "j < pe" "search_match buf j pe pat" by (auto dest: search_Some)
  with j assms(4) show ?thesis by (simp add: search_match_iff)
qed

text \<open>An occurrence three characters before the end of the run is a suffix of the run.\<close>

lemma prefix_at_end_suffix:
  assumes "prefix pat (span_text buf j pe)" "length pat = 3" "j = pe - 3"
    "ps \<le> j" "j < pe" "pe \<le> length buf"
  shows "suffix pat (span_text buf ps pe)"
proof -
  have "length (span_text buf j pe) = pe - j" using assms by (simp add: span_text_def)
  moreover have "3 \<le> length (span_text buf j pe)"
    using prefix_length_le[OF assms(1)] assms(2) by simp
  ultimately have "length (span_text buf j pe) = 3" using assms(3) by simp
  with assms(1,2) have "span_text buf j pe = pat"
    by (auto simp: prefix_def)
  moreover have "span_text buf j pe = drop (j - ps) (span_text buf ps pe)"
    using assms(4,5) by (simp add: span_text_def drop_take)
  ultimately show ?thesis by (metis suffix_drop)
qed

lemma appendText_f32_inside:
  assumes "sublist ''f32'' (span_text buf ps pe)" "\<not> suffix ''f32'' (span_text buf ps pe)"
    "ps \<le> pe" "pe \<le> length buf"
  shows "appendText buf ps pe out = Inl (LexError ''f32 should be at the end'')"
proof -
  from search_sublist[OF assms(1) _ assms(3,4)] obtain j where
    j: "search buf ps pe ''f32'' = Some j" "ps \<le> j" "j < pe" "prefix ''f32'' (span_text buf j pe)"
    by auto
  have "j \<noteq> pe - 3"
    using prefix_at_end_suffix[OF j(4) _ _ j(2,3) assms(4)] assms(2) by auto
  with j assms(3) show ?thesis by (auto simp: appendText_def)
qed

lemma appendText_i32_inside:
  assumes "\<not> sublist ''f32'' (span_text buf ps pe)"
    "sublist ''i32'' (span_text buf ps pe)" "\<not> suffix ''i32'' (span_text buf ps pe)"
    "ps \<le> pe" "pe \<le> length buf"
  shows "appendText buf ps pe out = Inl (LexError ''i32 should be at the end'')"
proof -
  from search_sublist[OF assms(2) _ assms(4,5)] obtain j where
    j: "search buf ps pe ''i32'' = Some j" "ps \<le> j" "j < pe" "prefix ''i32'' (span_text buf j pe)"
    by auto
  have "j \<noteq> pe - 3"
    using prefix_at_end_suffix[OF j(4) _ _ j(2,3) assms(5)] assms(3) by auto
  moreover have "search buf ps pe ''f32'' = None"
    using assms(1,4,5) by (intro search_None)
  ultimately show ?thesis using j assms(4) by (auto simp: appendText_def)
qed

lemma tokenize_loop_delimiter_fail:
  assumes "is_delimiter (peek buf pe)" and "appendText buf ps pe out = Inl err"
  shows "tokenize_loop buf ps pe False out = Inl err"
  using assms
  by (subst tokenize_loop.simps) (auto simp: is_delimiter_def Let_def NUL_def)

text \<open>
  C3, as stated: a run that does not end with \<open>f32\<close> or \<open>i32\<close> is a NAME, also
  where one of the two occurs earlier in the run, as in \<open>xf32y\<close>. That run fails the
  assertion that follows the search for \<open>f32\<close>.
\<close>

theorem tokenize_Name_run_counterexample:
  "\<not> suffix ''f32'' ''xf32y'' \<and> \<not> suffix ''i32'' ''xf32y'' \<and>
   tokenize ''xf32y '' = Inl (LexError ''f32 should be at the end'')"
  by code_simp

text \<open>
  C3, amended. Take a run that is not empty, that does not end with \<open>f32\<close> or
  \<open>i32\<close>, and that a delimiter closes, with the tokenizer at the start of the run and
  outside a string. If neither \<open>f32\<close> nor \<open>i32\<close> occurs anywhere in the run, the
  run is classified as a NAME token and the tokenizer does not fail at it: it goes on
  behind the delimiter with the NAME token of the run appended (and behind it the token
  of the delimiter, if that is a parenthesis); whatever token sequence it returns in the
  end has the NAME token directly behind the tokens made before; and the text that is
  just the run and a delimiter other than a quote gives exactly the NAME token (and
  the parenthesis). If \<open>f32\<close> occurs in the run, or else \<open>i32\<close>, the tokenizer
  fails with the assertion that the suffix should be at the end.
\<close>

theorem tokenize_Name_run:
  assumes "run \<noteq> []" and "\<forall>c\<in>set run. run_char c"
    and "\<not> suffix ''f32'' run" and "\<not> suffix ''i32'' run"
    and "is_delimiter d"
    and "buf = pre @ run @ d # rest" and "s = length pre" and "e = length pre + length run"
  shows
    "(sublist ''f32'' run \<longrightarrow>
        tokenize_loop buf s s False out = Inl (LexError ''f32 should be at the end''))
   \<and> (\<not> sublist ''f32'' run \<and> sublist ''i32'' run \<longrightarrow>
        tokenize_loop buf s s False out = Inl (LexError ''i32 should be at the end''))
   \<and> (\<not> sublist ''f32'' run \<and> \<not> sublist ''i32'' run \<longrightarrow>
        tokenize_loop buf s s False out
          = tokenize_loop buf (e + 1) (e + 1) (d = CHR 0x22)
              (out @ mkToken NAME s e # delimiter_token d e)
      \<and> (\<forall>toks. tokenize_loop buf s s False out = Inr toks
                  \<longrightarrow> prefix (out @ [mkToken NAME s e]) toks)
      \<and> (d \<noteq> CHR 0x22 \<longrightarrow>
            tokenize (run @ [d])
              = Inr (mkToken NAME 0 (length run) # delimiter_token d (length run))))"
proof -
  have skip: "tokenize_loop buf' (length pre') (length pre') False out'
              = tokenize_loop buf' (length pre') (length pre' + length run) False out'"
    if "buf' = pre' @ run @ d # rest'" for buf' pre' rest' out'
  proof -
    have "run_char (peek buf' i)" if "length pre' \<le> i" "i < length pre' + length run" for i
    proof -
      from that obtain j where j: "i = length pre' + j" "j < length run"
        by (metis add_diff_inverse_nat nat_add_left_cancel_less not_less)
      with assms(2) \<open>buf' = pre' @ run @ d # rest'\<close> show ?thesis
        by (simp add: peek_append_run)
    qed
    then show ?thesis by (rule tokenize_loop_skip_run)
  qed
  have sp: "span_text buf s e = run"
    unfolding assms(6,7,8) by (rule span_text_append)
  have pk: "peek buf e = d"
    unfolding assms(6,8) by (rule peek_append_delim)
  have le: "s \<le> e" "e \<le> length buf" "s < e"
    using assms(1) by (simp_all add: assms(6,7,8))
  have 1: "tokenize_loop buf s s False out = tokenize_loop buf s e False out"
    using skip[OF assms(6), of out] by (simp add: assms(7,8))
  have del: "is_delimiter (peek buf e)" using pk assms(5) by simp
  have A: "tokenize_loop buf s s False out = Inl (LexError ''f32 should be at the end'')"
    if "sublist ''f32'' run"
  proof -
    have "appendText buf s e out = Inl (LexError ''f32 should be at the end'')"
      using that assms(3) le by (intro appendText_f32_inside) (simp_all add: sp)
    from tokenize_loop_delimiter_fail[OF del this] 1 show ?thesis by simp
  qed
  have B: "tokenize_loop buf s s False out = Inl (LexError ''i32 should be at the end'')"
    if "\<not> sublist ''f32'' run" "sublist ''i32'' run"
  proof -
    have "appendText buf s e out = Inl (LexError ''i32 should be at the end'')"
      using that assms(4) le by (intro appendText_i32_inside) (simp_all add: sp)
    from tokenize_loop_delimiter_fail[OF del this] 1 show ?thesis by simp
  qed
  have at: "appendText buf' s' e' out' = Inr (out' @ [mkToken NAME s' e'])"
    if "\<not> sublist ''f32'' run" "\<not> sublist ''i32'' run"
       "span_text buf' s' e' = run" "s' < e'" "e' \<le> length buf'" for buf' s' e' out'
    using that by (intro appendText_Name) simp_all
  have C1: "tokenize_loop buf s s False out
          = tokenize_loop buf (e + 1) (e + 1) (d = CHR 0x22)
              (out @ mkToken NAME s e # delimiter_token d e)"
    if n: "\<not> sublist ''f32'' run" "\<not> sublist ''i32'' run"
    using tokenize_loop_delimiter[OF del at[OF n sp le(3,2), of out]] 1
    by (simp add: pk delimiter_token_def)
  have C2: "prefix (out @ [mkToken NAME s e]) toks"
    if n: "\<not> sublist ''f32'' run" "\<not> sublist ''i32'' run"
      and r: "tokenize_loop buf s s False out = Inr toks" for toks
  proof -
    from r C1[OF n] have "prefix (out @ mkToken NAME s e # delimiter_token d e) toks"
      by (simp add: tokenize_loop_prefix)
    then show ?thesis
      by (metis append.assoc append_Cons append_Nil prefix_order.trans prefixI)
  qed
  have C3: "tokenize (run @ [d])
              = Inr (mkToken NAME 0 (length run) # delimiter_token d (length run))"
    if n: "\<not> sublist ''f32'' run" "\<not> sublist ''i32'' run" and q: "d \<noteq> CHR 0x22"
  proof -
    let ?b = "run @ [d]"
    have b: "?b = [] @ run @ d # []" by simp
    have sp': "span_text ?b 0 (length run) = run" by (simp add: span_text_def)
    have pk': "peek ?b (length run) = d" by (simp add: peek_def nth_append)
    have "tokenize_loop ?b 0 0 False [] = tokenize_loop ?b 0 (length run) False []"
      using skip[OF b, of "[]"] by simp
    also have "\<dots> = tokenize_loop ?b (Suc (length run)) (Suc (length run)) False
                       ([] @ mkToken NAME 0 (length run) # delimiter_token d (length run))"
      using tokenize_loop_delimiter[of ?b "length run" 0 "[]", unfolded pk',
              OF assms(5) at[OF n sp', of "[]"]] assms(1) q
      by (simp add: delimiter_token_def)
    also have "\<dots> = Inr (mkToken NAME 0 (length run) # delimiter_token d (length run))"
      by (subst tokenize_loop.simps) (simp add: peek_def)
    finally show ?thesis by (simp add: tokenize_def)
  qed
  from A B C1 C2 C3 show ?thesis by blast
qed

theorem tokenize_Name_run_witness:
  "''42'' \<noteq> [] \<and> list_all run_char ''42''
   \<and> \<not> suffix ''f32'' ''42'' \<and> \<not> suffix ''i32'' ''42''
   \<and> \<not> sublist ''f32'' ''42'' \<and> \<not> sublist ''i32'' ''42''
   \<and> is_delimiter (CHR '' '')
   \<and> tokenize ''42 '' = Inr [mkToken NAME 0 2]
   \<and> tokenize ''ai32b '' = Inl (LexError ''i32 should be at the end'')"
proof -
  have h1: "''42'' \<noteq> []" by simp
  have h2: "\<forall>c\<in>set ''42''. run_char c" by (simp add: run_char_def is_delimiter_def NUL_def)
  have h3: "\<not> suffix ''f32'' ''42''" by (simp add: suffix_to_prefix)
  have h4: "\<not> suffix ''i32'' ''42''" by (simp add: suffix_to_prefix)
  have h5: "is_delimiter (CHR '' '')" by (simp add: is_delimiter_def)
  have n1: "\<not> sublist ''f32'' ''42''" by (simp add: sublist_Cons_right)
  have n2: "\<not> sublist ''i32'' ''42''" by (simp add: sublist_Cons_right)
  from tokenize_Name_run[OF h1 h2 h3 h4 h5 refl refl refl, of "[]" "[]" "[]"] n1 n2
  have t: "tokenize ''42 '' = Inr [mkToken NAME 0 2]"
    by (simp add: delimiter_token_def numeral_2_eq_2)
  have g1: "''ai32b'' \<noteq> []" by simp
  have g2: "\<forall>c\<in>set ''ai32b''. run_char c" by (simp add: run_char_def is_delimiter_def NUL_def)
  have g3: "\<not> suffix ''f32'' ''ai32b''" by (simp add: suffix_to_prefix)
  have g4: "\<not> suffix ''i32'' ''ai32b''" by (simp add: suffix_to_prefix)
  have m1: "\<not> sublist ''f32'' ''ai32b''" by (simp add: sublist_Cons_right)
  have m2: "sublist ''i32'' ''ai32b''" by (simp add: sublist_Cons_right)
  from tokenize_Name_run[OF g1 g2 g3 g4 h5 refl refl refl, of "[]" "[]" "[]"] m1 m2
  have u: "tokenize ''ai32b '' = Inl (LexError ''i32 should be at the end'')"
    by (simp add: tokenize_def)
  from h1 h2 h3 h4 h5 n1 n2 t u show ?thesis by (simp add: list_all_iff)
qed

subsection \<open>String literals\<close>

lemma tokenize_loop_in_string:
  "peek buf pe \<noteq> NUL \<Longrightarrow> peek buf pe \<noteq> CHR 0x22 \<Longrightarrow>
   tokenize_loop buf ps pe True out = tokenize_loop buf ps (Suc pe) True out"
  by (subst tokenize_loop.simps) (simp add: Let_def)

lemma tokenize_loop_skip_string:
  "(\<And>i. pe \<le> i \<Longrightarrow> i < pe + k \<Longrightarrow> peek buf i \<noteq> NUL \<and> peek buf i \<noteq> CHR 0x22) \<Longrightarrow>
   tokenize_loop buf ps pe True out = tokenize_loop buf ps (pe + k) True out"
proof (induction k arbitrary: pe)
  case 0
  then show ?case by simp
next
  case (Suc k)
  have "tokenize_loop buf ps pe True out = tokenize_loop buf ps (Suc pe) True out"
    using Suc.prems[of pe] by (intro tokenize_loop_in_string) simp_all
  also have "\<dots> = tokenize_loop buf ps (Suc pe + k) True out"
    using Suc.prems by (intro Suc.IH) simp_all
  finally show ?case by simp
qed

lemma tokenize_loop_open_quote:
  "peek buf pe = CHR 0x22 \<Longrightarrow>
   tokenize_loop buf pe pe False out = tokenize_loop buf (Suc pe) (Suc pe) True out"
  by (subst tokenize_loop.simps) (simp add: Let_def NUL_def appendText_def)

lemma tokenize_loop_close_quote:
  "peek buf pe = CHR 0x22 \<Longrightarrow>
   tokenize_loop buf ps pe True out
     = tokenize_loop buf (Suc pe) (Suc pe) False (out @ [mkToken STRING ps pe])"
  by (subst tokenize_loop.simps) (simp add: Let_def NUL_def)

text \<open>
  Inside a string literal every character up to the closing quote belongs to the body,
  white space and parentheses too: where the tokenizer stands at the opening quote,
  outside a string and with no run pending, it goes on behind the closing quote with one
  STRING token appended, whose span is the body without the two quotes.
\<close>

lemma tokenize_loop_string_literal:
  assumes "CHR 0x22 \<notin> set body" and "NUL \<notin> set body"
  shows "tokenize_loop (pre @ CHR 0x22 # body @ CHR 0x22 # rest) (length pre) (length pre) False out
         = tokenize_loop (pre @ CHR 0x22 # body @ CHR 0x22 # rest)
             (length pre + length body + 2) (length pre + length body + 2) False
             (out @ [mkToken STRING (length pre + 1) (length pre + 1 + length body)])
       \<and> span_text (pre @ CHR 0x22 # body @ CHR 0x22 # rest)
             (length pre + 1) (length pre + 1 + length body) = body"
proof -
  let ?buf = "pre @ CHR 0x22 # body @ CHR 0x22 # rest"
  let ?s = "length pre"
  have b: "?buf = (pre @ [CHR 0x22]) @ body @ CHR 0x22 # rest" by simp
  have 1: "tokenize_loop ?buf ?s ?s False out = tokenize_loop ?buf (Suc ?s) (Suc ?s) True out"
    by (rule tokenize_loop_open_quote) (simp add: peek_def nth_append)
  have "peek ?buf i \<noteq> NUL \<and> peek ?buf i \<noteq> CHR 0x22" if "Suc ?s \<le> i" "i < Suc ?s + length body" for i
  proof -
    from that obtain j where j: "i = length (pre @ [CHR 0x22]) + j" "j < length body"
      by (metis add_diff_inverse_nat length_append_singleton nat_add_left_cancel_less not_less)
    then have "peek ?buf i = body ! j"
      unfolding b j(1) by (intro peek_append_run)
    with j(2) assms show ?thesis by (metis nth_mem)
  qed
  then have 2: "tokenize_loop ?buf (Suc ?s) (Suc ?s) True out
                = tokenize_loop ?buf (Suc ?s) (Suc ?s + length body) True out"
    by (rule tokenize_loop_skip_string)
  have "peek ?buf (length (pre @ [CHR 0x22]) + length body) = CHR 0x22"
    unfolding b by (rule peek_append_delim)
  then have 3: "tokenize_loop ?buf (Suc ?s) (Suc ?s + length body) True out
       = tokenize_loop ?buf (Suc (Suc ?s + length body)) (Suc (Suc ?s + length body)) False
           (out @ [mkToken STRING (Suc ?s) (Suc ?s + length body)])"
    by (intro tokenize_loop_close_quote) simp
  have 4: "span_text ?buf (length (pre @ [CHR 0x22])) (length (pre @ [CHR 0x22]) + length body) = body"
    unfolding b by (rule span_text_append)
  from 1 2 3 4 show ?thesis by simp
qed

text \<open>
  So the STRING token of the literal is in whatever token sequence the tokenizer returns,
  directly behind the tokens made before, and the text that is just the literal gives
  exactly that token.
\<close>

lemma tokenize_string_literal:
  assumes "CHR 0x22 \<notin> set body" and "NUL \<notin> set body"
  shows "tokenize_loop (pre @ CHR 0x22 # body @ CHR 0x22 # rest) (length pre) (length pre) False out
           = Inr toks
         \<Longrightarrow> prefix (out @ [mkToken STRING (length pre + 1) (length pre + 1 + length body)]) toks"
    and "tokenize (CHR 0x22 # body @ [CHR 0x22]) = Inr [mkToken STRING 1 (1 + length body)]"
proof -
  assume "tokenize_loop (pre @ CHR 0x22 # body @ CHR 0x22 # rest) (length pre) (length pre) False out
           = Inr toks"
  with tokenize_loop_string_literal[OF assms, of pre rest out]
  show "prefix (out @ [mkToken STRING (length pre + 1) (length pre + 1 + length body)]) toks"
    by (simp add: tokenize_loop_prefix)
next
  let ?b = "CHR 0x22 # body @ [CHR 0x22]"
  have "tokenize_loop ?b (length body + 2) (length body + 2) False
          [mkToken STRING 1 (1 + length body)] = Inr [mkToken STRING 1 (1 + length body)]"
    by (subst tokenize_loop.simps) (simp add: peek_def)
  with tokenize_loop_string_literal[OF assms, of "[]" "[]" "[]"]
  show "tokenize ?b = Inr [mkToken STRING 1 (1 + length body)]"
    by (simp add: tokenize_def)
qed

text \<open>
  C9. The claim: inside a string literal every character up to the closing quote is part
  of the body, and the span of the STRING token leaves out both quotes; in particular
  the text of a parenthesis, the literal of body \<open>a ( b\<close> and a parenthesis yields
  one top-level list that holds exactly one String atom of that body. The tokens of that
  text are as the claim says. In the tree, the one child of the root, which holds the
  STRING atom, is the node made for the LeftParen: its \<^verbatim>\<open>isList\<close> was never written
  (the defect of C4), so it is not marked as a list, and where the member reads as false
  the program takes it for an atom.
\<close>

theorem parse_lists_string_in_unmarked_list:
  "tokenize (''('' @ CHR 0x22 # ''a ( b'' @ CHR 0x22 # '')'')
     = Inr [mkToken LP 0 1, mkToken STRING 2 7, mkToken RP 8 9] \<and>
   span_text (''('' @ CHR 0x22 # ''a ( b'' @ CHR 0x22 # '')'') 2 7 = ''a ( b'' \<and>
   parse_lists (''('' @ CHR 0x22 # ''a ( b'' @ CHR 0x22 # '')'')
     = Inr (ListNode (Some True) None
             [ListNode None None [ListNode (Some False) (Some (mkToken STRING 2 7)) []]]) \<and>
   isList (ListNode None None [ListNode (Some False) (Some (mkToken STRING 2 7)) []])
     \<noteq> Some True \<and>
   reads_isList False (ListNode None None [ListNode (Some False) (Some (mkToken STRING 2 7)) []])
     = False"
  by code_simp

end
